theory Spec2Isabelle
  imports Main
begin

section \<open>Context loggers (context/logger.go)\<close>

text \<open>
  The package keeps one process-wide default logger, binds a logger to a
  \<^verbatim>\<open>context.Context\<close> under a private key, and hands out loggers enriched with
  fields. Loggers are \<^verbatim>\<open>*logrus.Entry\<close> pointers, so the model has an explicit store
  of entries: an address is an index into the list of the entries allocated so far, and
  the package variable \<^verbatim>\<open>defaultLogger\<close> is a pointer into it. The mutex around the
  variable orders concurrent accesses only; the model is sequential.
\<close>

subsection \<open>Keys, values and fmt.Sprint\<close>

text \<open>
  Context keys, explicit field keys and extra lookup keys are Go \<^verbatim>\<open>interface{}\<close>
  values compared with \<^verbatim>\<open>==\<close>. The model covers the keys whose printed form is
  fixed by the value alone: the nil interface, strings, integers, values of a named
  integer type without a \<^verbatim>\<open>String\<close> method (type identifier, number), values of a
  named type with a \<^verbatim>\<open>String\<close> method (type identifier, the text it returns), and
  the package's own \<^verbatim>\<open>loggerKey{}\<close>.
\<close>

datatype key =
    KNil
  | KString string
  | KInt int
  | KNamedInt nat int
  | KStringer nat string
  | KLoggerKey

text \<open>
  Values held by a context or put into a field are \<^verbatim>\<open>interface{}\<close> values too. The
  model covers the nil interface, strings, integers, a \<^verbatim>\<open>*logrus.Entry\<close> (\<open>None\<close>
  is the nil pointer of that type, which is not the nil interface), and a value of some
  other type that implements \<^verbatim>\<open>Logger\<close> (such as \<^verbatim>\<open>*logrus.Logger\<close>), named by
  an identifier.
\<close>

datatype val =
    VNil
  | VStr string
  | VInt int
  | VEntry "nat option"
  | VOther nat

text \<open>Decimal digits of a natural number, as \<^verbatim>\<open>fmt\<close> prints an integer.\<close>

fun digits :: "nat \<Rightarrow> string" where
  "digits n =
     (if n < 10 then [''0123456789'' ! n]
      else digits (n div 10) @ [''0123456789'' ! (n mod 10)])"

declare digits.simps [simp del]

definition show_int :: "int \<Rightarrow> string" where
  "show_int i = (if i < 0 then CHR ''-'' # digits (nat (- i)) else digits (nat i))"

text \<open>\<^verbatim>\<open>fmt.Sprint\<close> of one operand.\<close>

fun Sprint :: "key \<Rightarrow> string" where
  "Sprint KNil = ''<nil>''"
| "Sprint (KString s) = s"
| "Sprint (KInt i) = show_int i"
| "Sprint (KNamedInt t i) = show_int i"
| "Sprint (KStringer t s) = s"
| "Sprint KLoggerKey = ''{}''"

subsection \<open>Contexts\<close>

text \<open>
  \<^verbatim>\<open>context.Context\<close> as the package uses it: the empty context and
  \<^verbatim>\<open>context.WithValue(parent, key, val)\<close>, which wraps the parent. \<^verbatim>\<open>ctx.Value(key)\<close>
  returns the value of the nearest binding of the key, and nil when there is none.
  (\<^verbatim>\<open>context.WithValue\<close> panics on a nil key, so no context of a Go program binds
  \<open>KNil\<close>; looking it up yields nil.)
\<close>

datatype ctx =
    Background
  | WithValue ctx key val

fun Value :: "ctx \<Rightarrow> key \<Rightarrow> val" where
  "Value Background k = VNil"
| "Value (WithValue parent k' v) k = (if k' = k then v else Value parent k)"

subsection \<open>Entries and the store\<close>

type_synonym Fields = "string \<rightharpoonup> val"

text \<open>
  A \<^verbatim>\<open>logrus.Entry\<close>: the backend \<^verbatim>\<open>*logrus.Logger\<close> it writes to (an identifier)
  and its fields \<^verbatim>\<open>Data\<close>.
\<close>

record Entry =
  Logger :: nat
  Data :: Fields

record state =
  heap :: "Entry list"
  defaultLogger :: "nat option"

text \<open>A panic of the Go runtime, or a pointer that no Go program can hold.\<close>

datatype error = NilDereference | DanglingPointer

definition deref :: "state \<Rightarrow> nat option \<Rightarrow> error + Entry" where
  "deref s p =
     (case p of
        None \<Rightarrow> Inl NilDereference
      | Some a \<Rightarrow> if a < length (heap s) then Inr (heap s ! a) else Inl DanglingPointer)"

text \<open>
  Modelled from the spec: \<^verbatim>\<open>(*logrus.Entry).WithFields\<close> belongs to the logging
  backend, which is not part of the source. An enrichment returns a new logger value
  that carries the receiver's fields and the added ones, an added field replacing a
  field of the same name; the receiver is not changed. Calling it on a nil pointer
  panics.
\<close>

definition WithFields :: "state \<Rightarrow> nat option \<Rightarrow> Fields \<Rightarrow> error + (nat option \<times> state)" where
  "WithFields s p flds =
     (case deref s p of
        Inl e \<Rightarrow> Inl e
      | Inr entry \<Rightarrow>
          Inr (Some (length (heap s)),
               s\<lparr>heap := heap s @ [entry\<lparr>Data := Data entry ++ flds\<rparr>]\<rparr>))"

text \<open>
  Modelled from the spec: \<^verbatim>\<open>(*logrus.Entry).WithField\<close>, the enrichment with one
  field.
\<close>

definition WithField :: "state \<Rightarrow> nat option \<Rightarrow> string \<Rightarrow> val \<Rightarrow> error + (nat option \<times> state)" where
  "WithField s p k v = WithFields s p [k \<mapsto> v]"

text \<open>
  The package variables after initialisation:
  \<^verbatim>\<open>defaultLogger = logrus.StandardLogger().WithFields(logrus.Fields{})\<close>, an entry
  of the standard backend (identifier 0) without fields.
\<close>

definition init_state :: state where
  "init_state = \<lparr>heap = [\<lparr>Logger = 0, Data = Map.empty\<rparr>], defaultLogger = Some 0\<rparr>"

subsection \<open>The package's functions\<close>

text \<open>
  A value of the interface type \<^verbatim>\<open>Logger\<close>: the nil interface, a
  \<^verbatim>\<open>*logrus.Entry\<close> (possibly the nil pointer), or a value of another
  implementing type.
\<close>

datatype Logger =
    NilLogger
  | EntryLogger "nat option"
  | OtherLogger nat

text \<open>The conversion of a \<^verbatim>\<open>Logger\<close> to \<^verbatim>\<open>interface{}\<close>.\<close>

fun iface :: "Logger \<Rightarrow> val" where
  "iface NilLogger = VNil"
| "iface (EntryLogger p) = VEntry p"
| "iface (OtherLogger n) = VOther n"

definition WithLogger :: "ctx \<Rightarrow> Logger \<Rightarrow> ctx" where
  "WithLogger c logger = WithValue c KLoggerKey (iface logger)"

text \<open>
  The loop of \<^verbatim>\<open>getLogrusLogger\<close> over the extra keys, in order, on the fields
  collected so far.
\<close>

fun resolve_keys :: "ctx \<Rightarrow> key list \<Rightarrow> Fields \<Rightarrow> Fields" where
  "resolve_keys c [] flds = flds"
| "resolve_keys c (k # ks) flds =
     (let v = Value c k
      in resolve_keys c ks (if v \<noteq> VNil then flds(Sprint k \<mapsto> v) else flds))"

definition getLogrusLogger :: "state \<Rightarrow> ctx \<Rightarrow> key list \<Rightarrow> error + (nat option \<times> state)" where
  "getLogrusLogger s c keys =
     (let loggerInterface = Value c KLoggerKey;
          logger =
            (if loggerInterface \<noteq> VNil
             then (case loggerInterface of VEntry lgr \<Rightarrow> lgr | _ \<Rightarrow> None)
             else None);
          logger = (if logger = None then defaultLogger s else logger);
          flds = resolve_keys c keys Map.empty
      in WithFields s logger flds)"

text \<open>The result of a function that returns a \<^verbatim>\<open>*logrus.Entry\<close> as a \<^verbatim>\<open>Logger\<close>.\<close>

definition as_Logger :: "error + (nat option \<times> state) \<Rightarrow> error + (Logger \<times> state)" where
  "as_Logger r = (case r of Inl e \<Rightarrow> Inl e | Inr (p, s) \<Rightarrow> Inr (EntryLogger p, s))"

definition GetLogger :: "state \<Rightarrow> ctx \<Rightarrow> key list \<Rightarrow> error + (Logger \<times> state)" where
  "GetLogger s c keys = as_Logger (getLogrusLogger s c keys)"

definition GetLoggerWithField ::
    "state \<Rightarrow> ctx \<Rightarrow> key \<Rightarrow> val \<Rightarrow> key list \<Rightarrow> error + (Logger \<times> state)" where
  "GetLoggerWithField s c k v keys =
     as_Logger
       (case getLogrusLogger s c keys of
          Inl e \<Rightarrow> Inl e
        | Inr (p, s') \<Rightarrow> WithField s' p (Sprint k) v)"

text \<open>
  The loop of \<^verbatim>\<open>GetLoggerWithFields\<close> over its map argument. Go visits the entries
  of a map in an order it does not specify; the argument of the model is the list of the
  map's entries in the order the call visits them (its keys are pairwise different).
\<close>

fun convert_fields :: "(key \<times> val) list \<Rightarrow> Fields \<Rightarrow> Fields" where
  "convert_fields [] lfields = lfields"
| "convert_fields ((k, v) # rest) lfields = convert_fields rest (lfields(Sprint k \<mapsto> v))"

definition GetLoggerWithFields ::
    "state \<Rightarrow> ctx \<Rightarrow> (key \<times> val) list \<Rightarrow> key list \<Rightarrow> error + (Logger \<times> state)" where
  "GetLoggerWithFields s c flds keys =
     (let lfields = convert_fields flds Map.empty
      in as_Logger
           (case getLogrusLogger s c keys of
              Inl e \<Rightarrow> Inl e
            | Inr (p, s') \<Rightarrow> WithFields s' p lfields))"

definition SetDefaultLogger :: "state \<Rightarrow> Logger \<Rightarrow> state" where
  "SetDefaultLogger s logger =
     (case logger of
        EntryLogger entry \<Rightarrow> s\<lparr>defaultLogger := entry\<rparr>
      | _ \<Rightarrow> s)"

subsection \<open>Observing a result\<close>

text \<open>
  What a caller sees of a retrieval: the \<^verbatim>\<open>Logger\<close> it returned (\<open>None\<close> after a
  panic), the entry the returned pointer refers to in the store after the call, that
  entry's fields, and one field of them.
\<close>

definition returned :: "error + (Logger \<times> state) \<Rightarrow> Logger option" where
  "returned r = (case r of Inl e \<Rightarrow> None | Inr (l, s) \<Rightarrow> Some l)"

definition entry_of :: "error + (Logger \<times> state) \<Rightarrow> Entry option" where
  "entry_of r =
     (case r of
        Inr (EntryLogger (Some a), s) \<Rightarrow> if a < length (heap s) then Some (heap s ! a) else None
      | _ \<Rightarrow> None)"

definition fields_of :: "error + (Logger \<times> state) \<Rightarrow> Fields option" where
  "fields_of r = map_option Data (entry_of r)"

definition field_of :: "error + (Logger \<times> state) \<Rightarrow> string \<Rightarrow> val option" where
  "field_of r n = (case fields_of r of None \<Rightarrow> None | Some d \<Rightarrow> d n)"

text \<open>
  The pointer \<^verbatim>\<open>getLogrusLogger\<close> enriches: the entry bound in the context when
  there is one and it is not the nil pointer, the default logger otherwise.
\<close>

definition base_ptr :: "state \<Rightarrow> ctx \<Rightarrow> nat option" where
  "base_ptr s c = (case Value c KLoggerKey of VEntry (Some a) \<Rightarrow> Some a | _ \<Rightarrow> defaultLogger s)"

text \<open>
  The values that the explicit fields give to a field name, in the order
  \<^verbatim>\<open>GetLoggerWithFields\<close> visits the entries of its map; and the non-nil values that
  the context has for the extra keys printing to a field name, in the order of the keys.
\<close>

definition explicit_values :: "(key \<times> val) list \<Rightarrow> string \<Rightarrow> val list" where
  "explicit_values F n = map snd (filter (\<lambda>(k, v). Sprint k = n) F)"

definition context_values :: "ctx \<Rightarrow> key list \<Rightarrow> string \<Rightarrow> val list" where
  "context_values c K n = filter (\<lambda>v. v \<noteq> VNil) (map (Value c) (filter (\<lambda>x. Sprint x = n) K))"

subsection \<open>Example values\<close>

text \<open>
  A store with the initial default logger and one more entry that carries a field, and
  a request context that binds that entry and a request identifier.
\<close>

definition request_state :: state where
  "request_state =
     \<lparr>heap = [\<lparr>Logger = 0, Data = Map.empty\<rparr>,
              \<lparr>Logger = 0, Data = [''service'' \<mapsto> VStr ''registry'']\<rparr>],
      defaultLogger = Some 0\<rparr>"

definition request_ctx :: ctx where
  "request_ctx =
     WithValue (WithLogger Background (EntryLogger (Some 1))) (KString ''reqID'') (VStr ''xyz'')"

section \<open>Properties\<close>

subsection \<open>Enrichment and the two loops\<close>

lemma WithFields_live:
  "a < length (heap s) \<Longrightarrow>
   WithFields s (Some a) f =
     Inr (Some (length (heap s)), s\<lparr>heap := heap s @ [(heap s ! a)\<lparr>Data := Data (heap s ! a) ++ f\<rparr>]\<rparr>)"
  by (simp add: WithFields_def deref_def)

lemma WithFields_Inr:
  "WithFields s p f = Inr (q, s') \<Longrightarrow>
   \<exists>a. p = Some a \<and> a < length (heap s) \<and> q = Some (length (heap s)) \<and>
       s' = s\<lparr>heap := heap s @ [(heap s ! a)\<lparr>Data := Data (heap s ! a) ++ f\<rparr>]\<rparr>"
  by (auto simp: WithFields_def deref_def split: option.splits if_splits)

lemma getLogrusLogger_base:
  "getLogrusLogger s c K = WithFields s (base_ptr s c) (resolve_keys c K Map.empty)"
  by (simp add: getLogrusLogger_def base_ptr_def Let_def split: val.splits option.splits)

lemma resolve_keys_absent:
  "(\<forall>x\<in>set K. Sprint x = n \<longrightarrow> Value c x = VNil) \<Longrightarrow> resolve_keys c K f n = f n"
  by (induction K arbitrary: f) (auto simp: Let_def)

lemma resolve_keys_present:
  "f n = Some w \<or> (\<exists>x\<in>set K. Sprint x = n \<and> Value c x = w \<and> w \<noteq> VNil) \<Longrightarrow>
   (\<forall>x\<in>set K. Sprint x = n \<and> Value c x \<noteq> VNil \<longrightarrow> Value c x = w) \<Longrightarrow>
   resolve_keys c K f n = Some w"
  by (induction K arbitrary: f) (auto simp: Let_def)

lemma convert_fields_absent:
  "n \<notin> Sprint ` fst ` set F \<Longrightarrow> convert_fields F f n = f n"
  by (induction F arbitrary: f) auto

lemma convert_fields_present:
  "f n = Some w \<or> (\<exists>k. (k, w) \<in> set F \<and> Sprint k = n) \<Longrightarrow>
   (\<forall>k v. (k, v) \<in> set F \<longrightarrow> Sprint k = n \<longrightarrow> v = w) \<Longrightarrow>
   convert_fields F f n = Some w"
proof (induction F arbitrary: f)
  case Nil
  then show ?case by simp
next
  case (Cons kv F)
  obtain k v where kv: "kv = (k, v)" by (cases kv)
  have all: "\<forall>k v. (k, v) \<in> set F \<longrightarrow> Sprint k = n \<longrightarrow> v = w"
    using Cons.prems(2) by auto
  have "(f(Sprint k \<mapsto> v)) n = Some w \<or> (\<exists>k. (k, w) \<in> set F \<and> Sprint k = n)"
  proof (cases "Sprint k = n")
    case True
    have "(k, v) \<in> set (kv # F)" by (simp add: kv)
    with Cons.prems(2) True have "v = w" by blast
    with True show ?thesis by simp
  next
    case False
    with Cons.prems(1) kv show ?thesis by auto
  qed
  from Cons.IH [of "f(Sprint k \<mapsto> v)", OF this all]
  have "convert_fields F (f(Sprint k \<mapsto> v)) n = Some w" .
  then show ?case by (simp only: kv convert_fields.simps)
qed


lemma convert_fields_last:
  "convert_fields F f n =
     (if explicit_values F n \<noteq> [] then Some (last (explicit_values F n)) else f n)"
proof (induction F arbitrary: f)
  case Nil
  show ?case by (simp add: explicit_values_def)
next
  case (Cons kv F)
  obtain k v where kv: "kv = (k, v)" by (cases kv)
  have ev: "explicit_values (kv # F) n =
              (if Sprint k = n then v # explicit_values F n else explicit_values F n)"
    by (simp add: explicit_values_def kv)
  show ?case
    unfolding kv convert_fields.simps Cons.IH [of "f(Sprint k \<mapsto> v)"] ev [unfolded kv]
    by simp
qed

lemma resolve_keys_last:
  "resolve_keys c K f n =
     (if context_values c K n \<noteq> [] then Some (last (context_values c K n)) else f n)"
proof (induction K arbitrary: f)
  case Nil
  show ?case by (simp add: context_values_def)
next
  case (Cons x K)
  have cv: "context_values c (x # K) n =
              (if Sprint x = n \<and> Value c x \<noteq> VNil then Value c x # context_values c K n
               else context_values c K n)"
    by (simp add: context_values_def)
  show ?case
    unfolding resolve_keys.simps Let_def cv
      Cons.IH [of "if Value c x \<noteq> VNil then f(Sprint x \<mapsto> Value c x) else f"]
    by simp
qed

lemma fields_of_GetLogger:
  "fields_of (GetLogger s c K) = Some D \<longleftrightarrow>
   (\<exists>b. base_ptr s c = Some b \<and> b < length (heap s) \<and>
        D = Data (heap s ! b) ++ resolve_keys c K Map.empty)"
  by (cases "base_ptr s c")
     (auto simp: fields_of_def entry_of_def GetLogger_def as_Logger_def getLogrusLogger_base
        WithFields_def deref_def)

lemma GetLoggerWithFields_live:
  "base_ptr s c = Some b \<Longrightarrow> b < length (heap s) \<Longrightarrow>
   GetLoggerWithFields s c F K =
     Inr (EntryLogger (Some (Suc (length (heap s)))),
          s\<lparr>heap := heap s @
             [(heap s ! b)\<lparr>Data := Data (heap s ! b) ++ resolve_keys c K Map.empty\<rparr>,
              (heap s ! b)\<lparr>Data := Data (heap s ! b) ++ resolve_keys c K Map.empty
                                   ++ convert_fields F Map.empty\<rparr>]\<rparr>)"
  by (simp add: GetLoggerWithFields_def as_Logger_def getLogrusLogger_base WithFields_live Let_def)

lemma GetLoggerWithField_eq:
  "GetLoggerWithField s c k v K = GetLoggerWithFields s c [(k, v)] K"
  by (simp add: GetLoggerWithField_def GetLoggerWithFields_def WithField_def split: sum.splits)

lemma GetLogger_live:
  "base_ptr s c = Some b \<Longrightarrow> b < length (heap s) \<Longrightarrow>
   GetLogger s c K =
     Inr (EntryLogger (Some (length (heap s))),
          s\<lparr>heap := heap s @
             [(heap s ! b)\<lparr>Data := Data (heap s ! b) ++ resolve_keys c K Map.empty\<rparr>]\<rparr>)"
  by (simp add: GetLogger_def as_Logger_def getLogrusLogger_base WithFields_live)

lemma GetLogger_Inr:
  "GetLogger s c K = Inr (l, s') \<Longrightarrow> \<exists>b. base_ptr s c = Some b \<and> b < length (heap s)"
  by (auto simp: GetLogger_def as_Logger_def getLogrusLogger_base split: sum.splits dest: WithFields_Inr)

lemma GetLoggerWithFields_Inr:
  "GetLoggerWithFields s c F K = Inr (l, s') \<Longrightarrow> \<exists>b. base_ptr s c = Some b \<and> b < length (heap s)"
  by (auto simp: GetLoggerWithFields_def as_Logger_def getLogrusLogger_base Let_def
      split: sum.splits dest: WithFields_Inr)


lemma entry_of_GetLogger_live:
  "base_ptr s c = Some b \<Longrightarrow> b < length (heap s) \<Longrightarrow>
   entry_of (GetLogger s c K) =
     Some ((heap s ! b)\<lparr>Data := Data (heap s ! b) ++ resolve_keys c K Map.empty\<rparr>)"
  by (simp add: GetLogger_live entry_of_def)

lemma entry_of_GetLogger_Some:
  "entry_of (GetLogger s c K) = Some e \<Longrightarrow> \<exists>b. base_ptr s c = Some b \<and> b < length (heap s)"
  by (cases "GetLogger s c K") (auto simp: entry_of_def dest: GetLogger_Inr)

lemma fields_of_GetLoggerWithFields:
  "base_ptr s c = Some b \<Longrightarrow> b < length (heap s) \<Longrightarrow>
   fields_of (GetLoggerWithFields s c F K) =
     Some (Data (heap s ! b) ++ resolve_keys c K Map.empty ++ convert_fields F Map.empty)"
  by (simp add: GetLoggerWithFields_live fields_of_def entry_of_def nth_append)

lemma retrieval_frame:
  assumes "r \<in> {GetLogger s c K, GetLoggerWithField s c k v K, GetLoggerWithFields s c F K}"
    and "r = Inr (l, s')"
  shows "defaultLogger s' = defaultLogger s \<and>
         (\<exists>ys. heap s' = heap s @ ys \<and> ys \<noteq> [] \<and>
               l = EntryLogger (Some (length (heap s) + length ys - 1)))"
proof -
  from assms have cases:
    "GetLogger s c K = Inr (l, s') \<or> GetLoggerWithFields s c [(k, v)] K = Inr (l, s') \<or>
     GetLoggerWithFields s c F K = Inr (l, s')"
    by (auto simp: GetLoggerWithField_eq)
  then obtain b where b: "base_ptr s c = Some b" "b < length (heap s)"
    by (blast dest: GetLogger_Inr GetLoggerWithFields_Inr)
  from cases show ?thesis
  proof (elim disjE)
    assume "GetLogger s c K = Inr (l, s')"
    then have "l = EntryLogger (Some (length (heap s)))"
      and "defaultLogger s' = defaultLogger s"
      and "\<exists>e. heap s' = heap s @ [e]"
      by (auto simp: GetLogger_live [OF b])
    then show ?thesis by auto
  next
    assume "GetLoggerWithFields s c [(k, v)] K = Inr (l, s')"
    then have "l = EntryLogger (Some (Suc (length (heap s))))"
      and "defaultLogger s' = defaultLogger s"
      and "\<exists>e e'. heap s' = heap s @ [e, e']"
      by (auto simp: GetLoggerWithFields_live [OF b])
    then show ?thesis by auto
  next
    assume "GetLoggerWithFields s c F K = Inr (l, s')"
    then have "l = EntryLogger (Some (Suc (length (heap s))))"
      and "defaultLogger s' = defaultLogger s"
      and "\<exists>e e'. heap s' = heap s @ [e, e']"
      by (auto simp: GetLoggerWithFields_live [OF b])
    then show ?thesis by auto
  qed
qed

lemma base_ptr_frame: "defaultLogger s' = defaultLogger s \<Longrightarrow> base_ptr s' c = base_ptr s c"
  by (simp add: base_ptr_def split: val.splits option.splits)

lemma resolve_stable:
  assumes "defaultLogger s' = defaultLogger s" and "heap s' = heap s @ ys"
    and "entry_of (GetLogger s c K) = Some e"
  shows "entry_of (GetLogger s' c K) = Some e"
proof -
  from assms(3) obtain b where b: "base_ptr s c = Some b" "b < length (heap s)"
    by (blast dest: entry_of_GetLogger_Some)
  have b': "base_ptr s' c = Some b" "b < length (heap s')"
    using b assms(2) base_ptr_frame [OF assms(1), of c] by simp_all
  have "heap s' ! b = heap s ! b"
    using b(2) assms(2) by (simp add: nth_append)
  with assms(3) show ?thesis
    by (simp add: entry_of_GetLogger_live [OF b] entry_of_GetLogger_live [OF b'])
qed

lemma base_ptr_WithLogger_Some [simp]:
  "base_ptr s (WithLogger c (EntryLogger (Some p))) = Some p"
  by (simp add: base_ptr_def WithLogger_def)

lemma base_ptr_unbound:
  "Value c KLoggerKey = VNil \<Longrightarrow> base_ptr s c = defaultLogger s"
  by (simp add: base_ptr_def)

lemma base_ptr_SetDefaultLogger_unbound:
  "Value c KLoggerKey = VNil \<Longrightarrow> base_ptr (SetDefaultLogger s (EntryLogger p)) c = p"
  by (simp add: base_ptr_def SetDefaultLogger_def)

lemma heap_SetDefaultLogger [simp]: "heap (SetDefaultLogger s l) = heap s"
  by (simp add: SetDefaultLogger_def split: Logger.splits)

lemma fields_of_GetLogger_base:
  assumes "fields_of (GetLogger s c []) = Some B"
  obtains b where "base_ptr s c = Some b" "b < length (heap s)" "B = Data (heap s ! b)"
  using assms by (auto simp: fields_of_GetLogger)

lemma resolve_keys_some:
  "\<exists>x\<in>set K. Sprint x = n \<and> Value c x \<noteq> VNil \<Longrightarrow>
   \<exists>x\<in>set K. Sprint x = n \<and> Value c x \<noteq> VNil \<and> resolve_keys c K f n = Some (Value c x)"
proof (induction K arbitrary: f)
  case Nil
  then show ?case by simp
next
  case (Cons k K)
  show ?case
  proof (cases "\<exists>x\<in>set K. Sprint x = n \<and> Value c x \<noteq> VNil")
    case True
    from Cons.IH [OF True, of "if Value c k \<noteq> VNil then f(Sprint k \<mapsto> Value c k) else f"]
    show ?thesis by (auto simp: Let_def)
  next
    case False
    with Cons.prems have k: "Sprint k = n" "Value c k \<noteq> VNil" by auto
    from False have "\<forall>x\<in>set K. Sprint x = n \<longrightarrow> Value c x = VNil" by blast
    from resolve_keys_absent [OF this, of "f(Sprint k \<mapsto> Value c k)"] k
    show ?thesis by (simp add: Let_def)
  qed
qed

subsection \<open>Evaluation on the example values\<close>

lemma digits_small: "n < 10 \<Longrightarrow> digits n = [''0123456789'' ! n]"
  by (subst digits.simps) simp

lemma show_int_1: "show_int 1 = ''1''"
  by (simp add: show_int_def digits_small)

lemma init_state_base:
  "Value c KLoggerKey = VNil \<Longrightarrow> base_ptr init_state c = Some 0"
  "0 < length (heap init_state)"
  "Data (heap init_state ! 0) = Map.empty"
  by (simp_all add: base_ptr_def init_state_def)

lemma fields_request: "fields_of (GetLogger request_state request_ctx []) = Some [''service'' \<mapsto> VStr ''registry'']"
  by (simp add: fields_of_def entry_of_def GetLogger_def as_Logger_def getLogrusLogger_def
      WithFields_def deref_def request_state_def request_ctx_def WithLogger_def Let_def)

lemma request_base:
  "base_ptr request_state request_ctx = Some 1" "1 < length (heap request_state)"
  "heap request_state ! 1 = \<lparr>Logger = 0, Data = [''service'' \<mapsto> VStr ''registry'']\<rparr>"
  "heap request_state ! 0 = \<lparr>Logger = 0, Data = Map.empty\<rparr>"
  "length (heap request_state) = 2"
  "heap request_state ! Suc 0 = \<lparr>Logger = 0, Data = [''service'' \<mapsto> VStr ''registry'']\<rparr>"
  by (simp_all add: base_ptr_def request_state_def request_ctx_def WithLogger_def)

subsection \<open>Binding and resolution\<close>

text \<open>
  C1, as stated, at a logger that is not a \<^verbatim>\<open>*logrus.Entry\<close>: bound to the empty
  context in the initial state, \<^verbatim>\<open>GetLogger\<close> does not return it; it returns an
  entry allocated from the default logger.
\<close>

theorem GetLogger_WithLogger_other_counterexample:
  "returned (GetLogger init_state (WithLogger Background (OtherLogger 7)) []) = Some (EntryLogger (Some 1)) \<and>
   returned (GetLogger init_state (WithLogger Background (OtherLogger 7)) []) \<noteq> Some (OtherLogger 7)"
  by (simp add: returned_def GetLogger_def as_Logger_def getLogrusLogger_def WithLogger_def
      WithFields_def deref_def init_state_def)

text \<open>
  C1 (amended). When the bound logger \<open>L\<close> is a non-nil \<^verbatim>\<open>*logrus.Entry\<close>,
  \<^verbatim>\<open>GetLogger(WithLogger(C, L))\<close> without extra keys succeeds and returns an entry
  with the backend and the fields of \<open>L\<close>, whatever the context and the default logger
  are; the entry is one the call allocates, not the pointer \<open>L\<close>. For every other \<open>L\<close> (the nil interface, the nil pointer, another implementation
  of \<^verbatim>\<open>Logger\<close>) the call does what it does on the empty context: it resolves the
  default logger.
\<close>

theorem GetLogger_WithLogger_roundtrip:
  "(p < length (heap s) \<longrightarrow>
      entry_of (GetLogger s (WithLogger c (EntryLogger (Some p))) []) = Some (heap s ! p) \<and>
      returned (GetLogger s (WithLogger c (EntryLogger (Some p))) [])
        = Some (EntryLogger (Some (length (heap s))))) \<and>
   ((\<forall>q. l \<noteq> EntryLogger (Some q)) \<longrightarrow>
      GetLogger s (WithLogger c l) [] = GetLogger s Background [])"
proof (intro conjI impI)
  assume "p < length (heap s)"
  then show "entry_of (GetLogger s (WithLogger c (EntryLogger (Some p))) []) = Some (heap s ! p)"
    by (simp add: entry_of_GetLogger_live)
next
  assume "p < length (heap s)"
  then show "returned (GetLogger s (WithLogger c (EntryLogger (Some p))) [])
               = Some (EntryLogger (Some (length (heap s))))"
    by (simp add: GetLogger_live returned_def)
next
  assume "\<forall>q. l \<noteq> EntryLogger (Some q)"
  then have "base_ptr s (WithLogger c l) = base_ptr s Background"
    by (cases l) (auto simp: base_ptr_def WithLogger_def split: option.splits)
  then show "GetLogger s (WithLogger c l) [] = GetLogger s Background []"
    by (simp add: GetLogger_def getLogrusLogger_base)
qed

theorem GetLogger_WithLogger_roundtrip_witness:
  "1 < length (heap request_state) \<and>
   entry_of (GetLogger request_state (WithLogger Background (EntryLogger (Some 1))) [])
     = Some (heap request_state ! 1) \<and>
   returned (GetLogger request_state (WithLogger Background (EntryLogger (Some 1))) [])
     = Some (EntryLogger (Some 2)) \<and>
   (\<forall>q. OtherLogger 7 \<noteq> EntryLogger (Some q)) \<and>
   GetLogger request_state (WithLogger Background (OtherLogger 7)) []
     = GetLogger request_state Background []"
  using GetLogger_WithLogger_roundtrip [of 1 request_state Background "OtherLogger 7"]
  by (simp add: request_state_def)

text \<open>
  C2, as stated, in the initial state on the empty context: \<^verbatim>\<open>GetLogger\<close> does not
  return the pointer held in the default logger variable; \<^verbatim>\<open>getLogrusLogger\<close> ends
  with \<^verbatim>\<open>logger.WithFields(fields)\<close>, so it returns an entry the call allocates.
\<close>

theorem GetLogger_unbound_pointer_counterexample:
  "Value Background KLoggerKey = VNil \<and>
   defaultLogger init_state = Some 0 \<and>
   returned (GetLogger init_state Background []) = Some (EntryLogger (Some 1)) \<and>
   returned (GetLogger init_state Background []) \<noteq> Some (EntryLogger (defaultLogger init_state))"
proof -
  have unbound: "Value Background KLoggerKey = VNil" by simp
  have held: "defaultLogger init_state = Some 0" by (simp add: init_state_def)
  have "length (heap init_state) = 1" by (simp add: init_state_def)
  with GetLogger_live [OF init_state_base(1) [OF unbound] init_state_base(2), of "[]"]
  have r: "returned (GetLogger init_state Background []) = Some (EntryLogger (Some 1))"
    by (simp add: returned_def)
  then have "returned (GetLogger init_state Background []) \<noteq> Some (EntryLogger (defaultLogger init_state))"
    by (simp add: held)
  with unbound held r show ?thesis by (intro conjI)
qed

text \<open>
  C2 (amended). On a context with no logger bound under the private key, when the
  default logger variable points to an entry, \<^verbatim>\<open>GetLogger\<close> without extra keys
  succeeds and returns a newly allocated entry with the backend and the fields of that
  entry. After \<^verbatim>\<open>SetDefaultLogger(L2)\<close> with a non-nil entry \<open>L2\<close>, whatever was set
  before, it returns a newly allocated entry with the backend and fields of \<open>L2\<close>.
  (What happens after \<^verbatim>\<open>SetDefaultLogger\<close> with the nil pointer is the subject of C8.)
\<close>

theorem GetLogger_unbound_default:
  assumes "Value c KLoggerKey = VNil"
  shows "(defaultLogger s = Some d \<and> d < length (heap s) \<longrightarrow>
            entry_of (GetLogger s c []) = Some (heap s ! d) \<and>
            returned (GetLogger s c []) = Some (EntryLogger (Some (length (heap s))))) \<and>
         (p < length (heap s) \<longrightarrow>
            entry_of (GetLogger (SetDefaultLogger (SetDefaultLogger s l1) (EntryLogger (Some p))) c [])
              = Some (heap s ! p) \<and>
            returned (GetLogger (SetDefaultLogger (SetDefaultLogger s l1) (EntryLogger (Some p))) c [])
              = Some (EntryLogger (Some (length (heap s)))))"
proof (intro conjI impI)
  assume d: "defaultLogger s = Some d \<and> d < length (heap s)"
  then have b: "base_ptr s c = Some d" "d < length (heap s)"
    using base_ptr_unbound [OF assms, of s] by simp_all
  show "entry_of (GetLogger s c []) = Some (heap s ! d)"
    by (simp add: entry_of_GetLogger_live [OF b])
  show "returned (GetLogger s c []) = Some (EntryLogger (Some (length (heap s))))"
    by (simp add: GetLogger_live [OF b] returned_def)
next
  let ?s = "SetDefaultLogger (SetDefaultLogger s l1) (EntryLogger (Some p))"
  assume "p < length (heap s)"
  then have b: "base_ptr ?s c = Some p" "p < length (heap ?s)"
    using base_ptr_SetDefaultLogger_unbound [OF assms, of "SetDefaultLogger s l1" "Some p"]
    by simp_all
  have "entry_of (GetLogger ?s c []) = Some (heap ?s ! p)"
    by (simp add: entry_of_GetLogger_live [OF b])
  then show "entry_of (GetLogger ?s c []) = Some (heap s ! p)" by simp
  have "returned (GetLogger ?s c []) = Some (EntryLogger (Some (length (heap ?s))))"
    by (simp add: GetLogger_live [OF b] returned_def)
  then show "returned (GetLogger ?s c []) = Some (EntryLogger (Some (length (heap s))))" by simp
qed

theorem GetLogger_unbound_default_witness:
  "Value (WithValue Background (KString ''reqID'') (VStr ''xyz'')) KLoggerKey = VNil \<and>
   defaultLogger request_state = Some 0 \<and> 0 < length (heap request_state) \<and>
   entry_of (GetLogger request_state (WithValue Background (KString ''reqID'') (VStr ''xyz'')) [])
     = Some (heap request_state ! 0) \<and>
   returned (GetLogger request_state (WithValue Background (KString ''reqID'') (VStr ''xyz'')) [])
     = Some (EntryLogger (Some 2)) \<and>
   1 < length (heap request_state) \<and>
   entry_of (GetLogger (SetDefaultLogger (SetDefaultLogger request_state (EntryLogger (Some 0)))
                          (EntryLogger (Some 1)))
               (WithValue Background (KString ''reqID'') (VStr ''xyz'')) [])
     = Some (heap request_state ! 1)"
  using GetLogger_unbound_default [of "WithValue Background (KString ''reqID'') (VStr ''xyz'')" request_state 0 1
      "EntryLogger (Some 0)"]
  by (simp add: request_state_def)

subsection \<open>Replacing the default logger\<close>

text \<open>
  C3. \<^verbatim>\<open>SetDefaultLogger\<close> with a value that is not a \<^verbatim>\<open>*logrus.Entry\<close> returns
  normally (the function has no failing step) and leaves the whole state, the default
  logger variable included, as it was.
\<close>

theorem SetDefaultLogger_non_entry_noop:
  "(\<forall>p. logger \<noteq> EntryLogger p) \<Longrightarrow> SetDefaultLogger s logger = s"
  by (cases logger) (simp_all add: SetDefaultLogger_def)

theorem SetDefaultLogger_non_entry_noop_witness:
  "(\<forall>p. OtherLogger 3 \<noteq> EntryLogger p) \<and>
   SetDefaultLogger request_state (OtherLogger 3) = request_state"
  using SetDefaultLogger_non_entry_noop [of "OtherLogger 3" request_state] by simp

subsection \<open>Field sets\<close>

text \<open>
  C4, as stated, at colliding names. An extra key \<^verbatim>\<open>"reqID"\<close> has the value
  \<^verbatim>\<open>"xyz"\<close> in the context, and the explicit fields hold \<^verbatim>\<open>"reqID"\<close> too: the
  returned logger carries the explicit value, not the context's. Two explicit keys, the
  integer 1 and the string \<^verbatim>\<open>"1"\<close>, print alike: whichever the loop visits first
  loses its value.
\<close>

theorem GetLoggerWithFields_collision_counterexample:
  "Value (WithValue Background (KString ''reqID'') (VStr ''xyz'')) (KString ''reqID'') = VStr ''xyz'' \<and>
   field_of (GetLoggerWithFields init_state (WithValue Background (KString ''reqID'') (VStr ''xyz''))
               [(KString ''reqID'', VStr ''explicit'')] [KString ''reqID'']) ''reqID''
     = Some (VStr ''explicit'') \<and>
   Sprint (KInt 1) = ''1'' \<and>
   field_of (GetLoggerWithFields init_state Background
               [(KInt 1, VStr ''a''), (KString ''1'', VStr ''b'')] []) ''1'' = Some (VStr ''b'') \<and>
   field_of (GetLoggerWithFields init_state Background
               [(KString ''1'', VStr ''b''), (KInt 1, VStr ''a'')] []) ''1'' = Some (VStr ''a'')"
  by (simp add: field_of_def fields_of_GetLoggerWithFields [OF init_state_base(1,2)]
      init_state_base(3) show_int_1)

text \<open>
  C4 (amended). Let resolution without extra keys succeed on \<open>C\<close> with the fields
  \<open>B\<close> of the base logger. Then \<^verbatim>\<open>GetLoggerWithFields(C, F, K...)\<close> succeeds, and in
  the returned logger's fields: an explicit key of \<open>F\<close> is mapped to its value under
  its printed name, unless another key of \<open>F\<close> with the same printed name has a
  different value; an extra key of \<open>K\<close> with a non-nil value in \<open>C\<close> is mapped to
  that value under its printed name, unless the name is the printed name of an explicit
  key or another key of \<open>K\<close> with that name has a different non-nil value in \<open>C\<close>; a
  name that no explicit key prints to, and whose extra keys all have no value in \<open>C\<close>,
  is as in the base logger (a key without a value adds no field).
  \<^verbatim>\<open>GetLoggerWithField(C, k, v, K...)\<close> is \<^verbatim>\<open>GetLoggerWithFields\<close> with the one
  explicit field. In general every name \<open>m\<close> has the value of the explicit key printing
  to \<open>m\<close> that the loop over \<open>F\<close> visits last; when there is none, the value in \<open>C\<close>
  of the last key of \<open>K\<close> that prints to \<open>m\<close> and has a non-nil value; when there is
  none either, what the base logger has.
\<close>

theorem GetLoggerWithFields_field_set:
  assumes "fields_of (GetLogger s c []) = Some B"
  shows "fields_of (GetLoggerWithFields s c F K) \<noteq> None \<and>
         ((k, v) \<in> set F \<and> (\<forall>(k', v')\<in>set F. Sprint k' = Sprint k \<longrightarrow> v' = v)
            \<longrightarrow> field_of (GetLoggerWithFields s c F K) (Sprint k) = Some v) \<and>
         (x \<in> set K \<and> Value c x \<noteq> VNil \<and> Sprint x \<notin> Sprint ` fst ` set F \<and>
          (\<forall>x'\<in>set K. Sprint x' = Sprint x \<and> Value c x' \<noteq> VNil \<longrightarrow> Value c x' = Value c x)
            \<longrightarrow> field_of (GetLoggerWithFields s c F K) (Sprint x) = Some (Value c x)) \<and>
         (n \<notin> Sprint ` fst ` set F \<and> (\<forall>x'\<in>set K. Sprint x' = n \<longrightarrow> Value c x' = VNil)
            \<longrightarrow> field_of (GetLoggerWithFields s c F K) n = B n) \<and>
         GetLoggerWithField s c k v K = GetLoggerWithFields s c [(k, v)] K \<and>
         field_of (GetLoggerWithFields s c F K) m =
           (if explicit_values F m \<noteq> [] then Some (last (explicit_values F m))
            else if context_values c K m \<noteq> [] then Some (last (context_values c K m))
            else B m)"
proof -
  from assms obtain b where b: "base_ptr s c = Some b" "b < length (heap s)"
    and B: "B = Data (heap s ! b)"
    by (rule fields_of_GetLogger_base)
  let ?R = "resolve_keys c K Map.empty"
  let ?E = "convert_fields F Map.empty"
  let ?D = "B ++ ?R ++ ?E"
  have D: "fields_of (GetLoggerWithFields s c F K) = Some ?D"
    by (simp add: fields_of_GetLoggerWithFields [OF b] B)
  then have at: "field_of (GetLoggerWithFields s c F K) m = ?D m" for m
    by (simp add: field_of_def)
  have explicit: "?D (Sprint k) = Some v"
    if "(k, v) \<in> set F" "\<forall>(k', v')\<in>set F. Sprint k' = Sprint k \<longrightarrow> v' = v"
  proof -
    have "?E (Sprint k) = Some v"
      using that by (intro convert_fields_present) blast+
    then show ?thesis by (simp add: map_add_Some_iff)
  qed
  have extra: "?D (Sprint x) = Some (Value c x)"
    if "x \<in> set K" "Value c x \<noteq> VNil" "Sprint x \<notin> Sprint ` fst ` set F"
      "\<forall>x'\<in>set K. Sprint x' = Sprint x \<and> Value c x' \<noteq> VNil \<longrightarrow> Value c x' = Value c x"
  proof -
    have E: "?E (Sprint x) = None"
      using that(3) by (simp add: convert_fields_absent)
    have "?R (Sprint x) = Some (Value c x)"
      using that(1,2,4) by (intro resolve_keys_present) blast+
    with E show ?thesis by (simp add: map_add_Some_iff)
  qed
  have other: "?D n = B n"
    if "n \<notin> Sprint ` fst ` set F" "\<forall>x'\<in>set K. Sprint x' = n \<longrightarrow> Value c x' = VNil"
  proof -
    have "?E n = None" using that(1) by (simp add: convert_fields_absent)
    moreover have "?R n = None" using that(2) by (simp add: resolve_keys_absent)
    ultimately show ?thesis by (simp add: map_add_def)
  qed
  have eq: "GetLoggerWithField s c k v K = GetLoggerWithFields s c [(k, v)] K"
    by (rule GetLoggerWithField_eq)
  from D have ok: "fields_of (GetLoggerWithFields s c F K) \<noteq> None" by simp
  have i1: "(k, v) \<in> set F \<and> (\<forall>(k', v')\<in>set F. Sprint k' = Sprint k \<longrightarrow> v' = v)
            \<longrightarrow> field_of (GetLoggerWithFields s c F K) (Sprint k) = Some v"
    unfolding at using explicit by blast
  have i2: "x \<in> set K \<and> Value c x \<noteq> VNil \<and> Sprint x \<notin> Sprint ` fst ` set F \<and>
          (\<forall>x'\<in>set K. Sprint x' = Sprint x \<and> Value c x' \<noteq> VNil \<longrightarrow> Value c x' = Value c x)
            \<longrightarrow> field_of (GetLoggerWithFields s c F K) (Sprint x) = Some (Value c x)"
    unfolding at using extra by blast
  have i3: "n \<notin> Sprint ` fst ` set F \<and> (\<forall>x'\<in>set K. Sprint x' = n \<longrightarrow> Value c x' = VNil)
            \<longrightarrow> field_of (GetLoggerWithFields s c F K) n = B n"
    unfolding at using other by blast
  have i4: "field_of (GetLoggerWithFields s c F K) m =
           (if explicit_values F m \<noteq> [] then Some (last (explicit_values F m))
            else if context_values c K m \<noteq> [] then Some (last (context_values c K m))
            else B m)"
    unfolding at by (simp add: map_add_def convert_fields_last resolve_keys_last)
  show ?thesis
    by (intro conjI) (rule ok i1 i2 i3 eq i4)+
qed

text \<open>
  The example of the specification, explicit fields \<open>a\<close> and \<open>b\<close>, an extra key
  bound in the context and one that is not, with one more explicit key that prints
  \<open>b\<close> and is visited last.
\<close>

theorem GetLoggerWithFields_field_set_witness:
  "fields_of (GetLogger request_state request_ctx []) = Some [''service'' \<mapsto> VStr ''registry''] \<and>
   (KString ''a'', VInt 1)
     \<in> set [(KString ''a'', VInt 1), (KString ''b'', VInt 2), (KStringer 5 ''b'', VInt 3)] \<and>
   KString ''reqID'' \<in> set [KString ''reqID'', KString ''user''] \<and>
   Value request_ctx (KString ''reqID'') = VStr ''xyz'' \<and>
   Value request_ctx (KString ''user'') = VNil \<and>
   fields_of (GetLoggerWithFields request_state request_ctx
                [(KString ''a'', VInt 1), (KString ''b'', VInt 2), (KStringer 5 ''b'', VInt 3)]
                [KString ''reqID'', KString ''user'']) \<noteq> None \<and>
   field_of (GetLoggerWithFields request_state request_ctx
                [(KString ''a'', VInt 1), (KString ''b'', VInt 2), (KStringer 5 ''b'', VInt 3)]
                [KString ''reqID'', KString ''user'']) ''a'' = Some (VInt 1) \<and>
   field_of (GetLoggerWithFields request_state request_ctx
                [(KString ''a'', VInt 1), (KString ''b'', VInt 2), (KStringer 5 ''b'', VInt 3)]
                [KString ''reqID'', KString ''user'']) ''reqID'' = Some (VStr ''xyz'') \<and>
   field_of (GetLoggerWithFields request_state request_ctx
                [(KString ''a'', VInt 1), (KString ''b'', VInt 2), (KStringer 5 ''b'', VInt 3)]
                [KString ''reqID'', KString ''user'']) ''user'' = None \<and>
   field_of (GetLoggerWithFields request_state request_ctx
                [(KString ''a'', VInt 1), (KString ''b'', VInt 2), (KStringer 5 ''b'', VInt 3)]
                [KString ''reqID'', KString ''user'']) ''b'' = Some (VInt 3)"
proof -
  let ?F = "[(KString ''a'', VInt 1), (KString ''b'', VInt 2), (KStringer 5 ''b'', VInt 3)]"
  let ?K = "[KString ''reqID'', KString ''user'']"
  let ?r = "GetLoggerWithFields request_state request_ctx ?F ?K"
  have vr: "Value request_ctx (KString ''reqID'') = VStr ''xyz''"
    and vu: "Value request_ctx (KString ''user'') = VNil"
    by (simp_all add: request_ctx_def WithLogger_def)
  note inst = GetLoggerWithFields_field_set [OF fields_request,
      of ?F ?K "KString ''a''" "VInt 1" "KString ''reqID''" "''user''" "''b''"]
  have p1: "(KString ''a'', VInt 1) \<in> set ?F \<and>
            (\<forall>(k', v')\<in>set ?F. Sprint k' = Sprint (KString ''a'') \<longrightarrow> v' = VInt 1)"
    by simp
  have p2: "KString ''reqID'' \<in> set ?K \<and> Value request_ctx (KString ''reqID'') \<noteq> VNil \<and>
            Sprint (KString ''reqID'') \<notin> Sprint ` fst ` set ?F \<and>
            (\<forall>x'\<in>set ?K. Sprint x' = Sprint (KString ''reqID'') \<and> Value request_ctx x' \<noteq> VNil
                \<longrightarrow> Value request_ctx x' = Value request_ctx (KString ''reqID''))"
    by (simp add: vr vu)
  have p3: "''user'' \<notin> Sprint ` fst ` set ?F \<and>
            (\<forall>x'\<in>set ?K. Sprint x' = ''user'' \<longrightarrow> Value request_ctx x' = VNil)"
    by (simp add: vr vu)
  have ok: "fields_of ?r \<noteq> None"
    by (rule inst [THEN conjunct1])
  have "field_of ?r (Sprint (KString ''a'')) = Some (VInt 1)"
    by (rule inst [THEN conjunct2, THEN conjunct1, THEN mp, OF p1])
  then have q1: "field_of ?r ''a'' = Some (VInt 1)" by simp
  have "field_of ?r (Sprint (KString ''reqID'')) = Some (Value request_ctx (KString ''reqID''))"
    by (rule inst [THEN conjunct2, THEN conjunct2, THEN conjunct1, THEN mp, OF p2])
  then have q2: "field_of ?r ''reqID'' = Some (VStr ''xyz'')" by (simp add: vr)
  have "field_of ?r ''user'' = [''service'' \<mapsto> VStr ''registry''] ''user''"
    by (rule inst [THEN conjunct2, THEN conjunct2, THEN conjunct2, THEN conjunct1, THEN mp, OF p3])
  then have q3: "field_of ?r ''user'' = None" by simp
  have ev: "explicit_values ?F ''b'' = [VInt 2, VInt 3]"
    by (simp add: explicit_values_def)
  have "field_of ?r ''b'' =
          (if explicit_values ?F ''b'' \<noteq> [] then Some (last (explicit_values ?F ''b''))
           else if context_values request_ctx ?K ''b'' \<noteq> []
             then Some (last (context_values request_ctx ?K ''b''))
           else [''service'' \<mapsto> VStr ''registry''] ''b'')"
    by (rule inst [THEN conjunct2, THEN conjunct2, THEN conjunct2, THEN conjunct2, THEN conjunct2])
  then have q4: "field_of ?r ''b'' = Some (VInt 3)" by (simp add: ev)
  have m1: "(KString ''a'', VInt 1) \<in> set ?F" and m2: "KString ''reqID'' \<in> set ?K" by simp_all
  show ?thesis
    by (intro conjI) (rule fields_request m1 m2 vr vu ok q1 q2 q3 q4)+
qed

text \<open>
  C5. The field name of a key is its \<^verbatim>\<open>fmt.Sprint\<close> text in all three operations:
  given as the explicit key of \<^verbatim>\<open>GetLoggerWithField\<close>, as a key of the map of
  \<^verbatim>\<open>GetLoggerWithFields\<close>, or as an extra key that has the value in the context, a
  key \<open>k\<close> with a value \<open>v\<close> adds the same field to the base logger's fields.
\<close>

theorem field_name_by_Sprint:
  assumes "fields_of (GetLogger s c []) = Some B"
  shows "fields_of (GetLoggerWithField s c k v []) = Some (B(Sprint k \<mapsto> v)) \<and>
         fields_of (GetLoggerWithFields s c [(k, v)] []) = Some (B(Sprint k \<mapsto> v)) \<and>
         (Value c k = v \<and> v \<noteq> VNil \<longrightarrow> fields_of (GetLogger s c [k]) = Some (B(Sprint k \<mapsto> v)))"
proof -
  from assms obtain b where b: "base_ptr s c = Some b" "b < length (heap s)"
    and B: "B = Data (heap s ! b)"
    by (rule fields_of_GetLogger_base)
  have "fields_of (GetLoggerWithFields s c [(k, v)] []) = Some (B(Sprint k \<mapsto> v))"
    by (simp add: fields_of_GetLoggerWithFields [OF b] B)
  moreover have "fields_of (GetLogger s c [k]) = Some (B(Sprint k \<mapsto> v))"
    if "Value c k = v" "v \<noteq> VNil"
    using that b by (simp add: fields_of_GetLogger B Let_def)
  ultimately show ?thesis
    by (simp add: GetLoggerWithField_eq)
qed

theorem field_name_by_Sprint_witness:
  "fields_of (GetLogger request_state request_ctx []) = Some [''service'' \<mapsto> VStr ''registry''] \<and>
   fields_of (GetLoggerWithField request_state request_ctx (KString ''reqID'') (VStr ''xyz'') [])
     = Some ([''service'' \<mapsto> VStr ''registry''](Sprint (KString ''reqID'') \<mapsto> VStr ''xyz'')) \<and>
   fields_of (GetLoggerWithFields request_state request_ctx [(KString ''reqID'', VStr ''xyz'')] [])
     = Some ([''service'' \<mapsto> VStr ''registry''](Sprint (KString ''reqID'') \<mapsto> VStr ''xyz'')) \<and>
   Value request_ctx (KString ''reqID'') = VStr ''xyz'' \<and> VStr ''xyz'' \<noteq> VNil \<and>
   fields_of (GetLogger request_state request_ctx [KString ''reqID''])
     = Some ([''service'' \<mapsto> VStr ''registry''](Sprint (KString ''reqID'') \<mapsto> VStr ''xyz''))"
proof -
  have v: "Value request_ctx (KString ''reqID'') = VStr ''xyz''"
    by (simp add: request_ctx_def)
  from field_name_by_Sprint [OF fields_request, of "KString ''reqID''" "VStr ''xyz''"] v fields_request
  show ?thesis by simp
qed

subsection \<open>Purity of the retrievals\<close>

text \<open>
  C6. A retrieval that returns (\<^verbatim>\<open>GetLogger\<close>, \<^verbatim>\<open>GetLoggerWithField\<close> or
  \<^verbatim>\<open>GetLoggerWithFields\<close>) leaves the default logger variable as it was, leaves
  every entry that existed before the call as it was (the context is a value the call
  does not return or change, and the entries it points to are among these), returns a
  pointer to an entry allocated by the call, and leaves the result of resolving the same
  context as it was, which succeeded before. A retrieval made after it returns a pointer
  different from the one this call returned.
\<close>

theorem retrieval_pure:
  assumes "r \<in> {GetLogger s c K, GetLoggerWithField s c k v K, GetLoggerWithFields s c F K}"
    and "r = Inr (l, s')"
  shows "defaultLogger s' = defaultLogger s \<and>
         take (length (heap s)) (heap s') = heap s \<and>
         (\<exists>a. l = EntryLogger (Some a) \<and> length (heap s) \<le> a \<and> a < length (heap s')) \<and>
         entry_of (GetLogger s' c []) = entry_of (GetLogger s c []) \<and>
         entry_of (GetLogger s c []) \<noteq> None \<and>
         returned (GetLogger s' c K) \<noteq> Some l \<and>
         returned (GetLoggerWithField s' c k v K) \<noteq> Some l \<and>
         returned (GetLoggerWithFields s' c F K) \<noteq> Some l"
proof -
  from retrieval_frame [OF assms] obtain ys where
    d: "defaultLogger s' = defaultLogger s" and h: "heap s' = heap s @ ys" and ys: "ys \<noteq> []"
    and l: "l = EntryLogger (Some (length (heap s) + length ys - 1))"
    by (elim conjE exE)
  from assms have "GetLogger s c K = Inr (l, s') \<or> GetLoggerWithFields s c [(k, v)] K = Inr (l, s') \<or>
     GetLoggerWithFields s c F K = Inr (l, s')"
    by (auto simp: GetLoggerWithField_eq)
  then obtain b where b: "base_ptr s c = Some b" "b < length (heap s)"
    by (blast dest: GetLogger_Inr GetLoggerWithFields_Inr)
  have e: "entry_of (GetLogger s c []) = Some ((heap s ! b)\<lparr>Data := Data (heap s ! b) ++ Map.empty\<rparr>)"
    using entry_of_GetLogger_live [OF b, of "[]"] by simp
  then have some: "entry_of (GetLogger s c []) \<noteq> None" by simp
  have stable: "entry_of (GetLogger s' c []) = entry_of (GetLogger s c [])"
    using resolve_stable [OF d h e] e by (rule trans_sym)
  have prefix: "take (length (heap s)) (heap s') = heap s"
    by (simp add: h)
  from ys have len: "0 < length ys" by simp
  have fresh: "\<exists>a. l = EntryLogger (Some a) \<and> length (heap s) \<le> a \<and> a < length (heap s')"
  proof (intro exI conjI)
    show "l = EntryLogger (Some (length (heap s) + length ys - 1))" by (rule l)
    show "length (heap s) \<le> length (heap s) + length ys - 1" using len by arith
    show "length (heap s) + length ys - 1 < length (heap s')" using len by (simp add: h)
  qed
  have again: "returned r' \<noteq> Some l"
    if "r' \<in> {GetLogger s' c K, GetLoggerWithField s' c k v K, GetLoggerWithFields s' c F K}" for r'
  proof (cases r')
    case (Inl err)
    then show ?thesis by (simp add: returned_def)
  next
    case (Inr p)
    obtain l' s'' where p: "p = (l', s'')" by (cases p)
    have r': "r' = Inr (l', s'')" by (simp add: Inr p)
    from retrieval_frame [OF that r'] obtain zs where "defaultLogger s'' = defaultLogger s'"
      and "heap s'' = heap s' @ zs" and zs: "zs \<noteq> []"
      and l': "l' = EntryLogger (Some (length (heap s') + length zs - 1))"
      by (elim conjE exE)
    from zs have lz: "0 < length zs" by simp
    have "length (heap s') = length (heap s) + length ys" by (simp add: h)
    with len lz have "length (heap s') + length zs - 1 \<noteq> length (heap s) + length ys - 1"
      by arith
    then have "l' \<noteq> l" by (simp add: l l')
    then show ?thesis by (simp add: r' returned_def)
  qed
  have a1: "returned (GetLogger s' c K) \<noteq> Some l"
    and a2: "returned (GetLoggerWithField s' c k v K) \<noteq> Some l"
    and a3: "returned (GetLoggerWithFields s' c F K) \<noteq> Some l"
    by (rule again, simp)+
  show ?thesis
    by (intro conjI) (rule d prefix fresh stable some a1 a2 a3)+
qed

theorem retrieval_pure_witness:
  "GetLoggerWithField request_state request_ctx (KString ''k'') (VStr ''v'') [KString ''reqID'']
     \<in> {GetLogger request_state request_ctx [KString ''reqID''],
         GetLoggerWithField request_state request_ctx (KString ''k'') (VStr ''v'') [KString ''reqID''],
         GetLoggerWithFields request_state request_ctx [] [KString ''reqID'']} \<and>
   GetLoggerWithField request_state request_ctx (KString ''k'') (VStr ''v'') [KString ''reqID'']
     = Inr (EntryLogger (Some 3),
            request_state\<lparr>heap := heap request_state @
              [\<lparr>Logger = 0, Data = [''service'' \<mapsto> VStr ''registry'', ''reqID'' \<mapsto> VStr ''xyz'']\<rparr>,
               \<lparr>Logger = 0, Data = [''service'' \<mapsto> VStr ''registry'', ''reqID'' \<mapsto> VStr ''xyz'',
                                     ''k'' \<mapsto> VStr ''v'']\<rparr>]\<rparr>) \<and>
   defaultLogger (request_state\<lparr>heap := heap request_state @
              [\<lparr>Logger = 0, Data = [''service'' \<mapsto> VStr ''registry'', ''reqID'' \<mapsto> VStr ''xyz'']\<rparr>,
               \<lparr>Logger = 0, Data = [''service'' \<mapsto> VStr ''registry'', ''reqID'' \<mapsto> VStr ''xyz'',
                                     ''k'' \<mapsto> VStr ''v'']\<rparr>]\<rparr>) = defaultLogger request_state \<and>
   entry_of (GetLogger (request_state\<lparr>heap := heap request_state @
              [\<lparr>Logger = 0, Data = [''service'' \<mapsto> VStr ''registry'', ''reqID'' \<mapsto> VStr ''xyz'']\<rparr>,
               \<lparr>Logger = 0, Data = [''service'' \<mapsto> VStr ''registry'', ''reqID'' \<mapsto> VStr ''xyz'',
                                     ''k'' \<mapsto> VStr ''v'']\<rparr>]\<rparr>) request_ctx [])
     = entry_of (GetLogger request_state request_ctx []) \<and>
   returned (GetLoggerWithField (request_state\<lparr>heap := heap request_state @
              [\<lparr>Logger = 0, Data = [''service'' \<mapsto> VStr ''registry'', ''reqID'' \<mapsto> VStr ''xyz'']\<rparr>,
               \<lparr>Logger = 0, Data = [''service'' \<mapsto> VStr ''registry'', ''reqID'' \<mapsto> VStr ''xyz'',
                                     ''k'' \<mapsto> VStr ''v'']\<rparr>]\<rparr>) request_ctx (KString ''k'') (VStr ''v'')
              [KString ''reqID'']) \<noteq> Some (EntryLogger (Some 3))"
proof -
  let ?r = "GetLoggerWithField request_state request_ctx (KString ''k'') (VStr ''v'') [KString ''reqID'']"
  let ?s' = "request_state\<lparr>heap := heap request_state @
              [\<lparr>Logger = 0, Data = [''service'' \<mapsto> VStr ''registry'', ''reqID'' \<mapsto> VStr ''xyz'']\<rparr>,
               \<lparr>Logger = 0, Data = [''service'' \<mapsto> VStr ''registry'', ''reqID'' \<mapsto> VStr ''xyz'',
                                     ''k'' \<mapsto> VStr ''v'']\<rparr>]\<rparr>"
  have m: "?r \<in> {GetLogger request_state request_ctx [KString ''reqID''], ?r,
                 GetLoggerWithFields request_state request_ctx [] [KString ''reqID'']}"
    by simp
  have r: "?r = Inr (EntryLogger (Some 3), ?s')"
    by (simp add: GetLoggerWithField_def as_Logger_def getLogrusLogger_def WithField_def
        WithFields_def deref_def request_state_def request_ctx_def WithLogger_def Let_def)
  from retrieval_pure [OF m r] m r show ?thesis by blast
qed

subsection \<open>Shadowing on derived contexts\<close>

text \<open>
  C7. \<^verbatim>\<open>WithLogger\<close> builds a new context around its argument and has no effect on
  the state. If resolution on \<open>C\<close> yields the entry \<open>e\<close>, then after any retrieval on
  a context \<open>WithLogger d L2\<close> (for every \<open>d\<close>, so also for one derived from \<open>C\<close>)
  resolution on \<open>C\<close> still yields \<open>e\<close>; the new context holds \<open>L2\<close> under the
  private key, and when \<open>L2\<close> is an entry, resolution on the new context yields the
  backend and fields of \<open>L2\<close>.
\<close>

theorem derived_binding_shadows:
  assumes "entry_of (GetLogger s c []) = Some e"
    and "r \<in> {GetLogger s (WithLogger d l2) K, GetLoggerWithField s (WithLogger d l2) k v K,
              GetLoggerWithFields s (WithLogger d l2) F K}"
    and "r = Inr (l, s')"
  shows "entry_of (GetLogger s' c []) = Some e \<and>
         Value (WithLogger d l2) KLoggerKey = iface l2 \<and>
         (l2 = EntryLogger (Some p) \<longrightarrow>
            entry_of (GetLogger s (WithLogger d l2) []) = Some (heap s ! p) \<and>
            entry_of (GetLogger s' (WithLogger d l2) []) = Some (heap s ! p))"
proof -
  from retrieval_frame [OF assms(2,3)] obtain ys where
    dl: "defaultLogger s' = defaultLogger s" and h: "heap s' = heap s @ ys" and "ys \<noteq> []"
    and "l = EntryLogger (Some (length (heap s) + length ys - 1))"
    by (elim conjE exE)
  have anc: "entry_of (GetLogger s' c []) = Some e"
    by (rule resolve_stable [OF dl h assms(1)])
  have bind: "Value (WithLogger d l2) KLoggerKey = iface l2"
    by (simp add: WithLogger_def)
  have shadow: "entry_of (GetLogger s (WithLogger d l2) []) = Some (heap s ! p) \<and>
                entry_of (GetLogger s' (WithLogger d l2) []) = Some (heap s ! p)"
    if l2: "l2 = EntryLogger (Some p)"
  proof -
    from assms(2,3) have "GetLogger s (WithLogger d l2) K = Inr (l, s') \<or>
        GetLoggerWithFields s (WithLogger d l2) [(k, v)] K = Inr (l, s') \<or>
        GetLoggerWithFields s (WithLogger d l2) F K = Inr (l, s')"
      by (auto simp: GetLoggerWithField_eq)
    then obtain b where "base_ptr s (WithLogger d l2) = Some b" "b < length (heap s)"
      by (blast dest: GetLogger_Inr GetLoggerWithFields_Inr)
    then have p: "p < length (heap s)" by (simp add: l2)
    have 1: "entry_of (GetLogger s (WithLogger d l2) []) = Some (heap s ! p)"
      using p by (simp add: l2 entry_of_GetLogger_live)
    from resolve_stable [OF dl h 1] 1 show ?thesis by (intro conjI)
  qed
  show ?thesis
    by (intro conjI impI) (rule anc bind shadow [THEN conjunct1] shadow [THEN conjunct2], assumption?)+
qed

theorem derived_binding_shadows_witness:
  "entry_of (GetLogger request_state request_ctx [])
     = Some \<lparr>Logger = 0, Data = [''service'' \<mapsto> VStr ''registry'']\<rparr> \<and>
   GetLogger request_state (WithLogger request_ctx (EntryLogger (Some 0))) []
     \<in> {GetLogger request_state (WithLogger request_ctx (EntryLogger (Some 0))) [],
         GetLoggerWithField request_state (WithLogger request_ctx (EntryLogger (Some 0)))
           (KString ''k'') (VStr ''v'') [],
         GetLoggerWithFields request_state (WithLogger request_ctx (EntryLogger (Some 0))) [] []} \<and>
   GetLogger request_state (WithLogger request_ctx (EntryLogger (Some 0))) []
     = Inr (EntryLogger (Some 2),
            request_state\<lparr>heap := heap request_state @ [\<lparr>Logger = 0, Data = Map.empty\<rparr>]\<rparr>) \<and>
   entry_of (GetLogger (request_state\<lparr>heap := heap request_state @ [\<lparr>Logger = 0, Data = Map.empty\<rparr>]\<rparr>)
               request_ctx [])
     = Some \<lparr>Logger = 0, Data = [''service'' \<mapsto> VStr ''registry'']\<rparr> \<and>
   entry_of (GetLogger request_state (WithLogger request_ctx (EntryLogger (Some 0))) [])
     = Some (heap request_state ! 0)"
proof -
  let ?d = "WithLogger request_ctx (EntryLogger (Some 0))"
  let ?s' = "request_state\<lparr>heap := heap request_state @ [\<lparr>Logger = 0, Data = Map.empty\<rparr>]\<rparr>"
  have e: "entry_of (GetLogger request_state request_ctx [])
             = Some \<lparr>Logger = 0, Data = [''service'' \<mapsto> VStr ''registry'']\<rparr>"
    by (simp add: entry_of_GetLogger_live [OF request_base(1,2)] request_base(6))
  have m: "GetLogger request_state ?d []
     \<in> {GetLogger request_state ?d [],
         GetLoggerWithField request_state ?d (KString ''k'') (VStr ''v'') [],
         GetLoggerWithFields request_state ?d [] []}"
    by simp
  have b0: "base_ptr request_state ?d = Some 0" "0 < length (heap request_state)"
    by (simp_all add: request_base(5))
  have r: "GetLogger request_state ?d [] = Inr (EntryLogger (Some 2), ?s')"
    by (simp add: GetLogger_live [OF b0] request_base(4,5))
  note inst = derived_binding_shadows [OF e m r, of 0]
  have q1: "entry_of (GetLogger ?s' request_ctx [])
     = Some \<lparr>Logger = 0, Data = [''service'' \<mapsto> VStr ''registry'']\<rparr>"
    by (rule inst [THEN conjunct1])
  have q2: "entry_of (GetLogger request_state ?d []) = Some (heap request_state ! 0)"
    by (rule inst [THEN conjunct2, THEN conjunct2, THEN mp, THEN conjunct1]) (rule refl)
  show ?thesis
    by (intro conjI) (rule e m r q1 q2)+
qed

subsection \<open>Validity of the default logger\<close>

text \<open>
  C8 fails on the code at the nil pointer of type \<^verbatim>\<open>*logrus.Entry\<close>. In the
  initial state resolution on the empty context succeeds, and a nil pointer bound in a
  context is tolerated: \<^verbatim>\<open>getLogrusLogger\<close> falls back to the default logger. But
  the type assertion of \<^verbatim>\<open>SetDefaultLogger\<close> accepts the nil pointer, the variable
  becomes nil, and the next resolution on the empty context panics in
  \<^verbatim>\<open>logger.WithFields\<close>.
\<close>

theorem SetDefaultLogger_nil_entry_panics:
  "entry_of (GetLogger init_state Background []) = Some \<lparr>Logger = 0, Data = Map.empty\<rparr> \<and>
   entry_of (GetLogger init_state (WithLogger Background (EntryLogger None)) [])
     = Some \<lparr>Logger = 0, Data = Map.empty\<rparr> \<and>
   defaultLogger (SetDefaultLogger init_state (EntryLogger None)) = None \<and>
   GetLogger (SetDefaultLogger init_state (EntryLogger None)) Background [] = Inl NilDereference"
  by (simp add: SetDefaultLogger_def GetLogger_def as_Logger_def getLogrusLogger_def
      WithFields_def deref_def init_state_def entry_of_def WithLogger_def)

subsection \<open>Explicit field against context field\<close>

text \<open>
  C10. When an extra key \<open>x\<close> has a non-nil value in the context and prints like
  the explicit key \<open>k\<close>, the logger returned by \<^verbatim>\<open>GetLoggerWithField(C, k, v, K...)\<close>
  with \<open>x\<close> among \<open>K\<close> carries \<open>v\<close> under that name, while \<^verbatim>\<open>GetLogger(C, K...)\<close>
  carries a value from the context under it: the context fields are attached first and
  the explicit field replaces the one of the same name.
\<close>

theorem explicit_field_overrides:
  assumes "fields_of (GetLogger s c []) = Some B"
    and "x \<in> set K" and "Value c x \<noteq> VNil" and "Sprint x = Sprint k"
  shows "field_of (GetLoggerWithField s c k v K) (Sprint x) = Some v \<and>
         (\<exists>x'\<in>set K. Sprint x' = Sprint x \<and> Value c x' \<noteq> VNil \<and>
             field_of (GetLogger s c K) (Sprint x) = Some (Value c x'))"
proof -
  from assms(1) obtain b where b: "base_ptr s c = Some b" "b < length (heap s)"
    and B: "B = Data (heap s ! b)"
    by (rule fields_of_GetLogger_base)
  have "fields_of (GetLoggerWithField s c k v K)
          = Some (B ++ resolve_keys c K Map.empty ++ convert_fields [(k, v)] Map.empty)"
    by (simp only: GetLoggerWithField_eq fields_of_GetLoggerWithFields [OF b] B)
  then have 1: "field_of (GetLoggerWithField s c k v K) (Sprint x) = Some v"
    by (simp add: field_of_def assms(4))
  from assms(2,3) have "\<exists>y\<in>set K. Sprint y = Sprint x \<and> Value c y \<noteq> VNil" by blast
  from resolve_keys_some [OF this, of Map.empty] obtain x' where x': "x' \<in> set K"
    "Sprint x' = Sprint x" "Value c x' \<noteq> VNil"
    "resolve_keys c K Map.empty (Sprint x) = Some (Value c x')"
    by blast
  have "fields_of (GetLogger s c K) = Some (B ++ resolve_keys c K Map.empty)"
    using b by (simp add: fields_of_GetLogger B)
  then have "field_of (GetLogger s c K) (Sprint x) = Some (Value c x')"
    by (simp add: field_of_def x'(4))
  with x' have 2: "\<exists>x'\<in>set K. Sprint x' = Sprint x \<and> Value c x' \<noteq> VNil \<and>
             field_of (GetLogger s c K) (Sprint x) = Some (Value c x')"
    by blast
  from 1 2 show ?thesis by (rule conjI)
qed

theorem explicit_field_overrides_witness:
  "fields_of (GetLogger request_state request_ctx []) = Some [''service'' \<mapsto> VStr ''registry''] \<and>
   KString ''reqID'' \<in> set [KString ''user'', KString ''reqID''] \<and>
   Value request_ctx (KString ''reqID'') \<noteq> VNil \<and>
   Sprint (KString ''reqID'') = Sprint (KStringer 5 ''reqID'') \<and>
   field_of (GetLoggerWithField request_state request_ctx (KStringer 5 ''reqID'') (VStr ''explicit'')
               [KString ''user'', KString ''reqID'']) ''reqID'' = Some (VStr ''explicit'') \<and>
   Value request_ctx (KString ''reqID'') = VStr ''xyz''"
proof -
  let ?K = "[KString ''user'', KString ''reqID'']"
  have vr: "Value request_ctx (KString ''reqID'') = VStr ''xyz''"
    by (simp add: request_ctx_def WithLogger_def)
  have m: "KString ''reqID'' \<in> set ?K" by simp
  have n: "Value request_ctx (KString ''reqID'') \<noteq> VNil" by (simp add: vr)
  have sp: "Sprint (KString ''reqID'') = Sprint (KStringer 5 ''reqID'')" by simp
  note inst = explicit_field_overrides [OF fields_request m n sp, of "VStr ''explicit''"]
  have "field_of (GetLoggerWithField request_state request_ctx (KStringer 5 ''reqID'')
          (VStr ''explicit'') ?K) (Sprint (KString ''reqID'')) = Some (VStr ''explicit'')"
    by (rule inst [THEN conjunct1])
  then have q: "field_of (GetLoggerWithField request_state request_ctx (KStringer 5 ''reqID'')
          (VStr ''explicit'') ?K) ''reqID'' = Some (VStr ''explicit'')"
    by simp
  show ?thesis
    by (intro conjI) (rule fields_request m n sp q vr)+
qed

end
